theory Spec2Isabelle
  imports Main
begin

section \<open>The memory blocks of plotter.c\<close>

text \<open>
  The program keeps a singly linked list of \<^verbatim>\<open>memoryBlock\<close> structures. The list is
  created by \<^verbatim>\<open>printGraph\<close>, is only ever changed by \<^verbatim>\<open>reallocMemory\<close> and is never
  shared, so it is modelled by the sequence of its nodes in \<^verbatim>\<open>next\<close> order: the head
  node the pointer \<^verbatim>\<open>memory\<close> designates, and the nodes behind it. Every node keeps
  the address of its own storage, so that freeing a node can be told from freeing
  the memory it owns. The type \<^verbatim>\<open>size_t\<close> is modelled by the natural numbers: every
  subtraction of the source is guarded by a comparison and no sum of the source
  exceeds \<^verbatim>\<open>requested\<close>, so no \<^verbatim>\<open>size_t\<close> operation wraps.
\<close>

type_synonym addr = nat

record memoryBlock =
  node :: addr
  sz :: nat
  mem :: "addr option"

record ledger =
  head :: memoryBlock
  rest :: "memoryBlock list"

text \<open>
  The C library allocator, with every call succeeding: \<^verbatim>\<open>malloc\<close> returns an
  address never handed out before (a real allocator may hand out a freed address
  again, but never one still in use, and the proofs below rely on no more), and
  every call is logged in order. \<open>Malloc_node\<close> is the allocation of a
  \<^verbatim>\<open>memoryBlock\<close>, \<open>Malloc p n\<close> one of \<open>n\<close> bytes. \<open>Enter\<close> is not a call of the
  allocator: it records an entry of \<^verbatim>\<open>reallocMemory\<close> with its two size arguments, so
  that the calls made can be counted.
\<close>

datatype event =
    Enter nat nat
  | Malloc addr nat
  | Malloc_node addr
  | Free addr

record allocator =
  brk :: addr
  log :: "event list"

definition malloc :: "nat \<Rightarrow> allocator \<Rightarrow> addr \<times> allocator" where
  "malloc n a = (brk a, \<lparr>brk = Suc (brk a), log = log a @ [Malloc (brk a) n]\<rparr>)"

definition malloc_node :: "allocator \<Rightarrow> addr \<times> allocator" where
  "malloc_node a = (brk a, \<lparr>brk = Suc (brk a), log = log a @ [Malloc_node (brk a)]\<rparr>)"

definition free :: "addr \<Rightarrow> allocator \<Rightarrow> allocator" where
  "free p a = a\<lparr>log := log a @ [Free p]\<rparr>"

definition enter :: "nat \<Rightarrow> nat \<Rightarrow> allocator \<Rightarrow> allocator" where
  "enter totalSpace requested a = a\<lparr>log := log a @ [Enter totalSpace requested]\<rparr>"

section \<open>The span count\<close>

text \<open>
  \<^verbatim>\<open>float iterations = (float)delta / (1024 * 1024); unsigned spans = (unsigned)iterations;
  if (iterations != spans) spans++;\<close>

  A \<^verbatim>\<open>float\<close> is an IEEE binary32 number with a significand of 24 bits, and the
  conversion of an integer rounds to the nearest such number, ties to the even
  significand. \<open>to_float n\<close> is the value of \<^verbatim>\<open>(float)n\<close>, which is an integer again.
  Dividing by \<open>2^20\<close> is exact, so \<^verbatim>\<open>iterations\<close> is \<open>to_float delta / 2^20\<close>; the
  model keeps the numerator. The conversion to \<^verbatim>\<open>unsigned\<close> (32 bits) truncates, and
  is undefined when the truncated value does not fit.
\<close>

fun bit_length :: "nat \<Rightarrow> nat" where
  "bit_length n = (if n = 0 then 0 else Suc (bit_length (n div 2)))"

definition to_float :: "nat \<Rightarrow> nat" where
  "to_float n =
     (let k = bit_length n in
      if k \<le> 24 then n
      else
        (let e = k - 24; q = n div 2 ^ e; r = n mod 2 ^ e; h = 2 ^ (e - 1)
         in (if h < r \<or> (r = h \<and> odd q) then q + 1 else q) * 2 ^ e))"

datatype error = Conversion_out_of_range

definition spans_of :: "nat \<Rightarrow> nat option" where
  "spans_of delta =
     (let iterations = to_float delta in
      if 2 ^ 32 \<le> iterations div 2 ^ 20 then None
      else
        (let spans = iterations div 2 ^ 20
         in Some (if iterations \<noteq> to_float spans * 2 ^ 20
                  then (spans + 1) mod 2 ^ 32 else spans)))"

declare bit_length.simps [simp del]

text \<open>The bounds of the significand: a number of \<open>k\<close> bits lies in \<open>[2^(k-1), 2^k)\<close>.\<close>

lemma bit_length_less: "n < 2 ^ bit_length n"
proof (induction n rule: bit_length.induct)
  case (1 n)
  show ?case
  proof (cases "n = 0")
    case True
    then show ?thesis by (simp add: bit_length.simps)
  next
    case False
    with 1 have "n div 2 < 2 ^ bit_length (n div 2)" by simp
    then have "n < 2 * 2 ^ bit_length (n div 2)" by linarith
    with False show ?thesis by (subst bit_length.simps) simp
  qed
qed

lemma bit_length_ge: "0 < n \<Longrightarrow> 2 ^ (bit_length n - 1) \<le> n"
proof (induction n rule: bit_length.induct)
  case (1 n)
  show ?case
  proof (cases "n div 2 = 0")
    case True
    with 1 show ?thesis by (subst bit_length.simps) (simp add: bit_length.simps)
  next
    case False
    with 1 have ih: "2 ^ (bit_length (n div 2) - 1) \<le> n div 2" by simp
    from False have "0 < bit_length (n div 2)" by (subst bit_length.simps) simp
    then have "(2::nat) ^ bit_length (n div 2) = 2 * 2 ^ (bit_length (n div 2) - 1)"
      by (cases "bit_length (n div 2)") simp_all
    with ih have "2 ^ bit_length (n div 2) \<le> n" by linarith
    with 1 show ?thesis by (subst bit_length.simps) simp
  qed
qed

lemma bit_length_le: "n < 2 ^ k \<Longrightarrow> bit_length n \<le> k"
proof (rule ccontr)
  assume a: "n < 2 ^ k" and b: "\<not> bit_length n \<le> k"
  from b have n: "0 < n" by (cases "n = 0") (simp_all add: bit_length.simps)
  from b have "k \<le> bit_length n - 1" by simp
  then have "(2::nat) ^ k \<le> 2 ^ (bit_length n - 1)" by (rule power_increasing) simp
  also have "\<dots> \<le> n" using n by (rule bit_length_ge)
  finally show False using a by simp
qed

lemma to_float_small: "n < 2 ^ 24 \<Longrightarrow> to_float n = n"
  using bit_length_le [of n 24] by (simp add: to_float_def)

lemma to_float_parts:
  assumes "24 < bit_length n"
  obtains q where "to_float n = q * 2 ^ (bit_length n - 24)"
    and "2 ^ 23 \<le> q" and "n \<le> q * 2 ^ (bit_length n - 24) + 2 ^ (bit_length n - 25)"
    and "q \<le> 2 ^ 24"
proof -
  define e where "e = bit_length n - 24"
  define q where "q = n div 2 ^ e"
  define r where "r = n mod 2 ^ e"
  define q' where "q' = (if 2 ^ (e - 1) < r \<or> (r = 2 ^ (e - 1) \<and> odd q) then q + 1 else q)"
  have e: "0 < e" "bit_length n - 1 = e + 23" using assms by (simp_all add: e_def)
  have tf: "to_float n = q' * 2 ^ e"
    using assms by (simp add: to_float_def Let_def e_def q_def r_def q'_def)
  have n: "n = q * 2 ^ e + r" unfolding q_def r_def by (metis div_mult_mod_eq)
  have "0 < n" using assms by (cases "n = 0") (simp_all add: bit_length.simps)
  then have "2 ^ (e + 23) \<le> n" using bit_length_ge [of n] e by (simp add: add.commute)
  then have "2 ^ 23 * 2 ^ e \<le> n" by (simp add: power_add mult.commute)
  then have "2 ^ 23 \<le> q" unfolding q_def
    by (simp add: less_eq_div_iff_mult_less_eq)
  then have q23: "2 ^ 23 \<le> q'" by (simp add: q'_def)
  have r: "r < 2 ^ e" by (simp add: r_def)
  have "n < 2 ^ (e + 24)" using bit_length_less [of n] assms by (simp add: e_def)
  then have "n < 2 ^ 24 * 2 ^ e" by (simp add: power_add mult.commute)
  then have "q < 2 ^ 24" unfolding q_def by (simp add: div_less_iff_less_mult)
  then have q24: "q' \<le> 2 ^ 24" by (simp add: q'_def)
  have "n \<le> q' * 2 ^ e + 2 ^ (e - 1)"
  proof (cases "2 ^ (e - 1) < r \<or> (r = 2 ^ (e - 1) \<and> odd q)")
    case True
    then have "q' = q + 1" by (simp add: q'_def)
    with n r show ?thesis by (simp add: algebra_simps)
  next
    case False
    then have "q' = q" "r \<le> 2 ^ (e - 1)" by (auto simp: q'_def)
    with n show ?thesis by simp
  qed
  moreover have "e - 1 = bit_length n - 25" by (simp add: e_def)
  ultimately have "n \<le> q' * 2 ^ e + 2 ^ (bit_length n - 25)" by simp
  with tf q23 show ?thesis using q24 unfolding e_def by (rule that)
qed

lemma bit_length_gt: "2 ^ k \<le> n \<Longrightarrow> k < bit_length n"
proof (rule ccontr)
  assume a: "2 ^ k \<le> n" and "\<not> k < bit_length n"
  then have "(2::nat) ^ bit_length n \<le> 2 ^ k" by (intro power_increasing) simp_all
  with a bit_length_less [of n] show False by simp
qed

lemma spans_of_cases:
  assumes "spans_of delta = Some spans"
  obtains "to_float delta div 2 ^ 20 < 2 ^ 32" and "spans = to_float delta div 2 ^ 20"
    and "to_float delta = spans * 2 ^ 20"
  | "to_float delta div 2 ^ 20 < 2 ^ 32" and "spans = (to_float delta div 2 ^ 20 + 1) mod 2 ^ 32"
proof -
  define it where "it = to_float delta"
  define raw where "raw = it div 2 ^ 20"
  from assms have lt: "raw < 2 ^ 32"
    and sp: "spans = (if it \<noteq> to_float raw * 2 ^ 20 then (raw + 1) mod 2 ^ 32 else raw)"
    by (simp_all add: spans_of_def Let_def it_def raw_def split: if_splits)
  show ?thesis
  proof (cases "it = to_float raw * 2 ^ 20")
    case True
    then have "it div 2 ^ 20 = to_float raw" by simp
    then have "raw = to_float raw" by (simp only: raw_def)
    with True sp have "spans = raw" "it = spans * 2 ^ 20" by simp_all
    with lt show ?thesis unfolding raw_def it_def by (intro that(1))
  next
    case False
    with sp have "spans = (raw + 1) mod 2 ^ 32" by simp
    with lt show ?thesis unfolding raw_def it_def by (intro that(2))
  qed
qed

lemma spans_of_bounds:
  assumes d: "2 ^ 20 < delta" and s: "spans_of delta = Some spans"
  shows "2 \<le> spans \<and> delta < spans * 2 ^ 20 + spans"
proof (cases "delta < 2 ^ 24")
  case True
  then have tf: "to_float delta = delta" by (rule to_float_small)
  from True have raw: "delta div 2 ^ 20 < 16" by (simp add: div_less_iff_less_mult)
  from d have raw1: "1 \<le> delta div 2 ^ 20" by (simp add: less_eq_div_iff_mult_less_eq)
  from s show ?thesis
  proof (cases rule: spans_of_cases)
    case 1
    from 1(3) tf have "delta = spans * 2 ^ 20" by simp
    with d show ?thesis by simp
  next
    case 2
    with tf raw have sp: "spans = delta div 2 ^ 20 + 1" by simp
    have "delta < (delta div 2 ^ 20 + 1) * 2 ^ 20"
      using div_mult_mod_eq [of delta "2 ^ 20"] mod_less_divisor [of "2 ^ 20" delta]
      by (simp del: div_mult_mod_eq)
    with sp raw1 show ?thesis by simp
  qed
next
  case False
  then have bl: "24 < bit_length delta" by (simp add: bit_length_gt)
  define e where "e = bit_length delta - 24"
  from bl obtain q where tf: "to_float delta = q * 2 ^ e" and q23: "2 ^ 23 \<le> q"
    and half: "delta \<le> q * 2 ^ e + 2 ^ (bit_length delta - 25)" and q24: "q \<le> 2 ^ 24"
    unfolding e_def by (rule to_float_parts)
  have e: "0 < e" "bit_length delta - 25 = e - 1" using bl by (simp_all add: e_def)
  define raw where "raw = to_float delta div 2 ^ 20"
  have "2 ^ (e + 3) * 2 ^ 20 = 2 ^ 23 * (2::nat) ^ e" by (simp add: power_add)
  also have "\<dots> \<le> to_float delta" using q23 by (simp add: tf)
  finally have rawge: "2 ^ (e + 3) \<le> raw"
    unfolding raw_def by (simp add: less_eq_div_iff_mult_less_eq)
  have small: "(2::nat) ^ (e - 1) < 2 ^ (e + 3)" by (rule power_strict_increasing) simp_all
  have "(2::nat) ^ 4 \<le> 2 ^ (e + 3)" using e(1) by (intro power_increasing) simp_all
  then have big: "(16::nat) \<le> 2 ^ (e + 3)" by simp
  from half e tf have half': "delta \<le> to_float delta + 2 ^ (e - 1)" by simp
  from s show ?thesis
  proof (cases rule: spans_of_cases)
    case 1
    from 1(2) have "spans = raw" by (simp add: raw_def)
    moreover from 1(3) have "to_float delta \<le> spans * 2 ^ 20" by simp
    ultimately show ?thesis using rawge small big half' by linarith
  next
    case 2
    have "raw \<noteq> 2 ^ 32 - 1"
    proof
      assume top: "raw = 2 ^ 32 - 1"
      have "raw * 2 ^ 20 \<le> to_float delta" unfolding raw_def by simp
      then have "(2 ^ 32 - 1) * 2 ^ 20 \<le> to_float delta" by (simp only: top)
      also have "\<dots> \<le> 2 ^ 24 * 2 ^ e" using q24 by (simp add: tf)
      finally have "(2::nat) ^ 51 < 2 ^ (e + 24)" by (simp add: power_add mult.commute)
      then have "51 < e + 24" by (simp only: power_strict_increasing_iff rel_simps)
      then obtain j where j: "e = 21 + j" using le_Suc_ex [of 21 e] by auto
      have "to_float delta = (q * 2 ^ j * 2) * 2 ^ 20" by (simp add: tf j power_add)
      then have "raw = q * 2 ^ j * 2" unfolding raw_def by simp
      then have "even raw" by simp
      moreover have "odd (2 ^ 32 - 1 :: nat)" by simp
      ultimately show False using top by simp
    qed
    with 2 have sp: "spans = raw + 1" by (simp add: raw_def)
    have "to_float delta < (raw + 1) * 2 ^ 20"
      unfolding raw_def
      using div_mult_mod_eq [of "to_float delta" "2 ^ 20"] mod_less_divisor [of "2 ^ 20" "to_float delta"]
      by (simp del: div_mult_mod_eq)
    with sp have "to_float delta \<le> spans * 2 ^ 20" by simp
    moreover from sp rawge have "2 ^ (e + 3) \<le> spans" by simp
    ultimately show ?thesis using small big half' by linarith
  qed
qed

section \<open>reallocMemory\<close>

text \<open>
  The branch of the allocation mechanism for a difference of at most 1 MiB
  (lines 104 to 113): the head is filled when it owns no memory, and a new node
  is linked behind the head.
\<close>

definition alloc_block :: "nat \<Rightarrow> ledger \<Rightarrow> allocator \<Rightarrow> ledger \<times> allocator" where
  "alloc_block delta memory a =
     (let (memory1, a1) =
            (case mem (head memory) of
               None \<Rightarrow>
                 (let (p, a') = malloc delta a
                  in (memory\<lparr>head := (head memory)\<lparr>mem := Some p, sz := delta\<rparr>\<rparr>, a'))
             | Some _ \<Rightarrow> (memory, a));
          (n, a2) = malloc_node a1;
          (p, a3) = malloc delta a2
      in (memory1\<lparr>rest := \<lparr>node = n, sz = delta, mem = Some p\<rparr> # rest memory1\<rparr>, a3))"

text \<open>
  The deallocation loop (lines 119 to 150). \<open>dealloc_walk\<close> is the loop at a block
  that has a predecessor (\<^verbatim>\<open>prev\<close> is set); \<open>dealloc\<close> is its first iteration, at
  the head, where \<^verbatim>\<open>prev\<close> is \<^verbatim>\<open>NULL\<close>.
\<close>

fun dealloc_walk :: "nat \<Rightarrow> memoryBlock list \<Rightarrow> allocator \<Rightarrow> memoryBlock list \<times> allocator" where
  "dealloc_walk delta [] a = ([], a)"
| "dealloc_walk delta (block # bs) a =
     (if delta = 0 then (block # bs, a)
      else
        (case mem block of
           Some p \<Rightarrow>
             if sz block \<le> delta
             then dealloc_walk (delta - sz block) bs (free (node block) (free p a))
             else
               (let (q, a') = malloc (sz block - delta) (free p a)
                in (block\<lparr>mem := Some q, sz := sz block - delta\<rparr> # bs, a'))
         | None \<Rightarrow>
             (let (bs', a') = dealloc_walk delta bs a in (block # bs', a'))))"

definition dealloc :: "nat \<Rightarrow> ledger \<Rightarrow> allocator \<Rightarrow> ledger \<times> allocator" where
  "dealloc delta memory a =
     (if delta = 0 then (memory, a)
      else
        (case mem (head memory) of
           Some p \<Rightarrow>
             if sz (head memory) \<le> delta
             then
               (let (bs', a') = dealloc_walk (delta - sz (head memory)) (rest memory) (free p a)
                in (\<lparr>head = (head memory)\<lparr>mem := None, sz := 0\<rparr>, rest = bs'\<rparr>, a'))
             else
               (let (q, a') = malloc (sz (head memory) - delta) (free p a)
                in (memory\<lparr>head := (head memory)\<lparr>mem := Some q, sz := sz (head memory) - delta\<rparr>\<rparr>, a'))
         | None \<Rightarrow>
             (let (bs', a') = dealloc_walk delta (rest memory) a
              in (memory\<lparr>rest := bs'\<rparr>, a'))))"

text \<open>
  \<^verbatim>\<open>reallocMemory\<close> itself. The \<^verbatim>\<open>for\<close> loop of the split branch is \<open>realloc_spans\<close>,
  counting the iterations that remain; every iteration calls \<^verbatim>\<open>reallocMemory\<close> with the
  same two sizes on the list the iteration before left. A span count that the
  conversion leaves undefined ends the call with an error.
\<close>

function reallocMemory :: "ledger \<Rightarrow> nat \<Rightarrow> nat \<Rightarrow> allocator \<Rightarrow> error + ledger \<times> allocator"
  and realloc_spans :: "nat \<Rightarrow> ledger \<Rightarrow> nat \<Rightarrow> nat \<Rightarrow> allocator \<Rightarrow> error + ledger \<times> allocator"
where
  "reallocMemory memory totalSpace requested a =
     (if requested > totalSpace then
        (if requested - totalSpace > 1024 * 1024 then
           (case spans_of (requested - totalSpace) of
              None \<Rightarrow> Inl Conversion_out_of_range
            | Some spans \<Rightarrow>
                realloc_spans spans memory totalSpace
                  (totalSpace + (requested - totalSpace) div spans) (enter totalSpace requested a))
         else Inr (alloc_block (requested - totalSpace) memory (enter totalSpace requested a)))
      else if requested < totalSpace then
        Inr (dealloc (totalSpace - requested) memory (enter totalSpace requested a))
      else Inr (memory, enter totalSpace requested a))"
| "realloc_spans 0 memory totalSpace requested a = Inr (memory, a)"
| "realloc_spans (Suc n) memory totalSpace requested a =
     (case reallocMemory memory totalSpace requested a of
        Inl e \<Rightarrow> Inl e
      | Inr (memory', a') \<Rightarrow> realloc_spans n memory' totalSpace requested a')"
  by pat_completeness auto

termination
proof (relation "measures
    [\<lambda>x. case x of Inl (m, t, r, a) \<Rightarrow> r - t | Inr (n, m, t, r, a) \<Rightarrow> r - t,
     \<lambda>x. case x of Inl _ \<Rightarrow> 0 | Inr (n, _) \<Rightarrow> Suc n]", goal_cases)
  case 1
  show ?case by simp
next
  case (2 memory totalSpace requested a spans)
  then have "2 \<le> spans" using spans_of_bounds [of "requested - totalSpace" spans] by simp
  moreover from 2 have "0 < requested - totalSpace" by simp
  ultimately have "(requested - totalSpace) div spans < requested - totalSpace"
    by (intro div_less_dividend) simp_all
  then show ?case by simp
next
  case 3
  then show ?case by simp
next
  case 4
  then show ?case by simp
qed

section \<open>destroyMemory and printGraph\<close>

text \<open>
  \<^verbatim>\<open>for (block = memory, memory = memory->next; memory; block = memory, memory = memory->next)\<close>:
  \<open>destroy_loop block ms\<close> is the loop at \<^verbatim>\<open>block\<close> with \<open>ms\<close> the list \<^verbatim>\<open>memory\<close> points to.
  The body runs only while \<^verbatim>\<open>memory\<close> is not \<^verbatim>\<open>NULL\<close>.
\<close>

fun destroy_loop :: "memoryBlock \<Rightarrow> memoryBlock list \<Rightarrow> allocator \<Rightarrow> allocator" where
  "destroy_loop block [] a = a"
| "destroy_loop block (m # ms) a =
     destroy_loop m ms
       (free (node block) (case mem block of Some p \<Rightarrow> free p a | None \<Rightarrow> a))"

definition destroyMemory :: "ledger \<Rightarrow> allocator \<Rightarrow> allocator" where
  "destroyMemory memory a = destroy_loop (head memory) (rest memory) a"

text \<open>
  \<^verbatim>\<open>printGraph\<close>: the allocation of the head (lines 170 to 175), the loop over the
  sample points (lines 177 to 186) and the release (lines 188 and 189). The byte
  counts \<^verbatim>\<open>mem\<close> the loop computes from the plotted function are a parameter, the
  list \<open>mems\<close>; printing and sleeping are left out.
\<close>

definition init_ledger :: "allocator \<Rightarrow> ledger \<times> allocator" where
  "init_ledger a =
     (let (n, a') = malloc_node a
      in (\<lparr>head = \<lparr>node = n, sz = 0, mem = None\<rparr>, rest = []\<rparr>, a'))"

fun plot_loop :: "nat list \<Rightarrow> nat \<Rightarrow> ledger \<Rightarrow> allocator \<Rightarrow> error + ledger \<times> allocator" where
  "plot_loop [] totMem memory a = Inr (memory, a)"
| "plot_loop (m # mems) totMem memory a =
     (case reallocMemory memory totMem m a of
        Inl e \<Rightarrow> Inl e
      | Inr (memory', a') \<Rightarrow> plot_loop mems m memory' a')"

definition plot :: "nat list \<Rightarrow> allocator \<Rightarrow> error + ledger \<times> allocator" where
  "plot mems a = (let (memory, a') = init_ledger a in plot_loop mems 0 memory a')"

definition printGraph :: "nat list \<Rightarrow> allocator \<Rightarrow> error + allocator" where
  "printGraph mems a =
     (case plot mems a of
        Inl e \<Rightarrow> Inl e
      | Inr (memory, a') \<Rightarrow> Inr (free (node (head memory)) (destroyMemory memory a')))"

text \<open>A sequence of calls of \<^verbatim>\<open>reallocMemory\<close> with any arguments, on one list.\<close>

fun realloc_calls :: "(nat \<times> nat) list \<Rightarrow> ledger \<Rightarrow> allocator \<Rightarrow> error + ledger \<times> allocator" where
  "realloc_calls [] memory a = Inr (memory, a)"
| "realloc_calls ((totalSpace, requested) # cs) memory a =
     (case reallocMemory memory totalSpace requested a of
        Inl e \<Rightarrow> Inl e
      | Inr (memory', a') \<Rightarrow> realloc_calls cs memory' a')"

section \<open>Observations\<close>

text \<open>
  The regions of a list in order, the live ones (those that own memory), the sum of
  the sizes of the live ones, and the calls of \<^verbatim>\<open>reallocMemory\<close> a log records.
\<close>

definition regions :: "ledger \<Rightarrow> memoryBlock list" where
  "regions memory = head memory # rest memory"

definition live :: "memoryBlock \<Rightarrow> bool" where
  "live b = (mem b \<noteq> None)"

definition live_sum :: "memoryBlock list \<Rightarrow> nat" where
  "live_sum bs = sum_list (map sz (filter live bs))"

definition live_total :: "ledger \<Rightarrow> nat" where
  "live_total memory = live_sum (regions memory)"

definition total_after :: "error + ledger \<times> allocator \<Rightarrow> nat option" where
  "total_after r = (case r of Inl e \<Rightarrow> None | Inr (memory, a) \<Rightarrow> Some (live_total memory))"

fun entries :: "event list \<Rightarrow> (nat \<times> nat) list" where
  "entries [] = []"
| "entries (Enter t r # es) = (t, r) # entries es"
| "entries (e # es) = entries es"

definition start :: allocator where
  "start = \<lparr>brk = 0, log = []\<rparr>"

text \<open>
  A region is tidy when it owns memory exactly when its size is not zero.
  \<open>head_kept h\<close> says that the head node still is the node at address \<open>h\<close>, that no
  other node and no memory of the list has this address, that addresses from \<open>brk\<close>
  on are beyond it, and that the log holds no release of it. \<open>release_events b\<close> are
  the two calls of \<^verbatim>\<open>free\<close> that unlink a region behind the head.
\<close>

definition tidy :: "memoryBlock \<Rightarrow> bool" where
  "tidy b = ((mem b = None) = (sz b = 0))"

definition head_kept :: "addr \<Rightarrow> ledger \<Rightarrow> allocator \<Rightarrow> bool" where
  "head_kept h memory a =
     (node (head memory) = h \<and> h < brk a \<and> Free h \<notin> set (log a) \<and>
      list_all (\<lambda>b. node b \<noteq> h) (rest memory) \<and>
      list_all (\<lambda>b. mem b \<noteq> Some h) (regions memory))"

definition release_events :: "memoryBlock \<Rightarrow> event list" where
  "release_events b = (case mem b of Some p \<Rightarrow> [Free p, Free (node b)] | None \<Rightarrow> [])"

section \<open>The branches of reallocMemory\<close>

declare reallocMemory.simps [simp del]

lemma realloc_equal: "reallocMemory memory t t a = Inr (memory, enter t t a)"
  by (simp add: reallocMemory.simps)

lemma realloc_shrink:
  "r < t \<Longrightarrow> reallocMemory memory t r a = Inr (dealloc (t - r) memory (enter t r a))"
  by (simp add: reallocMemory.simps)

lemma realloc_grow_small:
  "t < r \<Longrightarrow> r - t \<le> 2 ^ 20 \<Longrightarrow>
   reallocMemory memory t r a = Inr (alloc_block (r - t) memory (enter t r a))"
  by (simp add: reallocMemory.simps)

lemma realloc_grow_split:
  "2 ^ 20 < r - t \<Longrightarrow> spans_of (r - t) = Some spans \<Longrightarrow>
   reallocMemory memory t r a =
     realloc_spans spans memory t (t + (r - t) div spans) (enter t r a)"
proof -
  assume a: "2 ^ 20 < r - t" "spans_of (r - t) = Some spans"
  then have "t < r" by simp
  with a show ?thesis by (simp add: reallocMemory.simps)
qed

lemma realloc_grow_undefined:
  "2 ^ 20 < r - t \<Longrightarrow> spans_of (r - t) = None \<Longrightarrow>
   reallocMemory memory t r a = Inl Conversion_out_of_range"
proof -
  assume a: "2 ^ 20 < r - t" "spans_of (r - t) = None"
  then have "t < r" by simp
  with a show ?thesis by (simp add: reallocMemory.simps)
qed

lemma live_sum_Nil [simp]: "live_sum [] = 0"
  by (simp add: live_sum_def)

lemma live_sum_Cons [simp]: "live_sum (b # bs) = (if live b then sz b else 0) + live_sum bs"
  by (simp add: live_sum_def)

lemma dealloc_walk_sum: "live_sum (fst (dealloc_walk delta bs a)) = live_sum bs - delta"
proof (induction bs arbitrary: delta a)
  case Nil
  show ?case by simp
next
  case (Cons b bs)
  show ?case
  proof (cases "delta = 0")
    case True
    then show ?thesis by simp
  next
    case False
    show ?thesis
    proof (cases "mem b")
      case None
      with False Cons [of delta a] show ?thesis
        by (auto simp add: live_def case_prod_beta)
    next
      case (Some p)
      with False Cons [of "delta - sz b" "free (node b) (free p a)"] show ?thesis
        by (auto simp add: live_def case_prod_beta)
    qed
  qed
qed

lemma dealloc_sum: "live_total (fst (dealloc delta memory a)) = live_total memory - delta"
proof (cases "mem (head memory)")
  case None
  then show ?thesis
    using dealloc_walk_sum [of delta "rest memory" a]
    by (auto simp add: dealloc_def live_total_def regions_def live_def case_prod_beta)
next
  case (Some p)
  then show ?thesis
    using dealloc_walk_sum [of "delta - sz (head memory)" "rest memory" "free p a"]
    by (auto simp add: dealloc_def live_total_def regions_def live_def case_prod_beta)
qed

section \<open>Shrinking\<close>

text \<open>
  Claim C5: on a list whose live sizes sum to \<open>T\<close>, a shrink from \<open>T\<close> to \<open>T - delta\<close>
  with \<open>0 < delta \<le> T\<close> returns and leaves the live sizes summing to \<open>T - delta\<close>,
  however many regions the walk releases or cuts down.
\<close>

theorem C5_shrink_exact:
  assumes "live_total memory = T" and "0 < delta" and "delta \<le> T"
  shows "\<exists>memory' a'. reallocMemory memory T (T - delta) a = Inr (memory', a')
           \<and> live_total memory' = T - delta"
proof -
  from assms have "T - delta < T" by simp
  then have "reallocMemory memory T (T - delta) a =
      Inr (dealloc (T - (T - delta)) memory (enter T (T - delta) a))"
    by (rule realloc_shrink)
  moreover have "live_total (fst (dealloc (T - (T - delta)) memory (enter T (T - delta) a))) = T - delta"
    using assms by (simp add: dealloc_sum)
  ultimately show ?thesis by (metis prod.collapse)
qed

theorem C5_witness:
  "live_total \<lparr>head = \<lparr>node = 0, sz = 3, mem = Some 1\<rparr>,
      rest = [\<lparr>node = 2, sz = 5, mem = Some 3\<rparr>, \<lparr>node = 4, sz = 2, mem = Some 5\<rparr>]\<rparr> = 10 \<and>
   (\<exists>memory' a'.
      reallocMemory \<lparr>head = \<lparr>node = 0, sz = 3, mem = Some 1\<rparr>,
          rest = [\<lparr>node = 2, sz = 5, mem = Some 3\<rparr>, \<lparr>node = 4, sz = 2, mem = Some 5\<rparr>]\<rparr>
        10 (10 - 4) \<lparr>brk = 6, log = []\<rparr> = Inr (memory', a') \<and>
      live_total memory' = 10 - 4)"
  using C5_shrink_exact [of "\<lparr>head = \<lparr>node = 0, sz = 3, mem = Some 1\<rparr>,
      rest = [\<lparr>node = 2, sz = 5, mem = Some 3\<rparr>, \<lparr>node = 4, sz = 2, mem = Some 5\<rparr>]\<rparr>"
      10 4 "\<lparr>brk = 6, log = []\<rparr>"]
  by (simp add: live_total_def regions_def live_def)

lemma live_sum_filter_dead [simp]: "live_sum (filter (\<lambda>b. \<not> live b) bs) = 0"
  by (induction bs) simp_all

lemma dealloc_walk_all:
  "live_sum bs < delta \<Longrightarrow>
   dealloc_walk delta bs a =
     (filter (\<lambda>b. \<not> live b) bs, a\<lparr>log := log a @ concat (map release_events bs)\<rparr>)"
proof (induction bs arbitrary: delta a)
  case Nil
  show ?case by simp
next
  case (Cons b bs)
  show ?case
  proof (cases "mem b")
    case None
    with Cons.prems Cons.IH [of delta a] show ?thesis
      by (simp add: live_def release_events_def)
  next
    case (Some p)
    with Cons.prems have "live_sum bs < delta - sz b" and "sz b \<le> delta" and "delta \<noteq> 0"
      by (simp_all add: live_def)
    with Some Cons.IH [of "delta - sz b" "free (node b) (free p a)"] show ?thesis
      by (simp add: live_def release_events_def free_def)
  qed
qed

text \<open>
  Claim C10: a shrink by more than the live sizes sum to walks to the end of the
  list, releases the memory of every live region (the head stays as a node with no
  memory and size zero, every live region behind it is unlinked and its node freed),
  returns without an error and leaves a live total of zero.
\<close>

theorem C10_shrink_beyond_total:
  assumes "requested < totalSpace" and "live_total memory < totalSpace - requested"
  shows "\<exists>memory' a'.
      reallocMemory memory totalSpace requested a = Inr (memory', a') \<and>
      head memory' = (if live (head memory) then (head memory)\<lparr>mem := None, sz := 0\<rparr>
                      else head memory) \<and>
      rest memory' = filter (\<lambda>b. \<not> live b) (rest memory) \<and>
      log a' = log a @ Enter totalSpace requested #
                 (case mem (head memory) of Some p \<Rightarrow> [Free p] | None \<Rightarrow> []) @
                 concat (map release_events (rest memory)) \<and>
      list_all (\<lambda>b. mem b = None) (regions memory') \<and>
      live_total memory' = 0"
proof -
  let ?delta = "totalSpace - requested"
  let ?a = "enter totalSpace requested a"
  from assms(1) have re: "reallocMemory memory totalSpace requested a = Inr (dealloc ?delta memory ?a)"
    by (rule realloc_shrink)
  have dead: "list_all (\<lambda>b. mem b = None) (filter (\<lambda>b. \<not> live b) bs)" for bs
    by (induction bs) (simp_all add: live_def)
  have zero: "live_sum (filter (\<lambda>b. mem b = None) bs) = 0" for bs
    by (induction bs) (simp_all add: live_def)
  show ?thesis
  proof (cases "mem (head memory)")
    case None
    with assms have "live_sum (rest memory) < ?delta"
      by (simp add: live_total_def regions_def live_def)
    then have "dealloc_walk ?delta (rest memory) ?a =
        (filter (\<lambda>b. \<not> live b) (rest memory),
         ?a\<lparr>log := log ?a @ concat (map release_events (rest memory))\<rparr>)"
      by (rule dealloc_walk_all)
    with None assms re dead [of "rest memory"] show ?thesis
      by (simp add: dealloc_def live_total_def regions_def live_def enter_def zero)
  next
    case (Some p)
    with assms have "live_sum (rest memory) < ?delta - sz (head memory)"
      and le: "sz (head memory) \<le> ?delta"
      by (simp_all add: live_total_def regions_def live_def)
    then have "dealloc_walk (?delta - sz (head memory)) (rest memory) (free p ?a) =
        (filter (\<lambda>b. \<not> live b) (rest memory),
         (free p ?a)\<lparr>log := log (free p ?a) @ concat (map release_events (rest memory))\<rparr>)"
      by (intro dealloc_walk_all)
    with Some assms re le dead [of "rest memory"] show ?thesis
      by (simp add: dealloc_def live_total_def regions_def live_def enter_def free_def zero)
  qed
qed

theorem C10_witness:
  "\<exists>memory' a'.
      reallocMemory \<lparr>head = \<lparr>node = 0, sz = 3, mem = Some 1\<rparr>,
          rest = [\<lparr>node = 2, sz = 5, mem = Some 3\<rparr>, \<lparr>node = 4, sz = 0, mem = None\<rparr>]\<rparr>
        20 5 \<lparr>brk = 6, log = []\<rparr> = Inr (memory', a') \<and>
      head memory' = \<lparr>node = 0, sz = 0, mem = None\<rparr> \<and>
      rest memory' = [\<lparr>node = 4, sz = 0, mem = None\<rparr>] \<and>
      log a' = [Enter 20 5, Free 1, Free 3, Free 2] \<and>
      live_total memory' = 0"
proof -
  let ?m = "\<lparr>head = \<lparr>node = 0, sz = 3, mem = Some 1\<rparr>,
      rest = [\<lparr>node = 2, sz = 5, mem = Some 3\<rparr>, \<lparr>node = 4, sz = 0, mem = None\<rparr>]\<rparr>"
  have small: "live_total ?m < 20 - 5"
    by (simp add: live_total_def regions_def live_def)
  have "(5::nat) < 20" by simp
  from C10_shrink_beyond_total [OF this small, of "\<lparr>brk = 6, log = []\<rparr>"]
  show ?thesis by (simp add: live_def release_events_def) blast
qed

section \<open>Invariants of the list\<close>

lemma realloc_preserves:
  assumes en: "\<And>m a t r. P m a \<Longrightarrow> P m (enter t r a)"
    and al: "\<And>d m a. 0 < d \<Longrightarrow> P m a \<Longrightarrow> P (fst (alloc_block d m a)) (snd (alloc_block d m a))"
    and de: "\<And>d m a. P m a \<Longrightarrow> P (fst (dealloc d m a)) (snd (dealloc d m a))"
  shows "P memory a \<Longrightarrow> reallocMemory memory t r a = Inr (memory', a') \<Longrightarrow> P memory' a'"
    and "P memory a \<Longrightarrow> realloc_spans n memory t r a = Inr (memory', a') \<Longrightarrow> P memory' a'"
proof (induction memory t r a and n memory t r a arbitrary: memory' a' and memory' a'
    rule: reallocMemory_realloc_spans.induct)
  case (1 memory totalSpace requested a)
  from "1.prems"(1) have pe: "P memory (enter totalSpace requested a)" by (rule en)
  consider (eq) "requested = totalSpace" | (less) "requested < totalSpace"
    | (small) "totalSpace < requested" "requested - totalSpace \<le> 2 ^ 20"
    | (split) "2 ^ 20 < requested - totalSpace" by linarith
  then show ?case
  proof cases
    case eq
    with "1.prems"(2) pe show ?thesis by (simp add: realloc_equal)
  next
    case less
    with "1.prems"(2) de [OF pe, of "totalSpace - requested"] show ?thesis
      by (simp add: realloc_shrink)
  next
    case small
    with "1.prems"(2) al [OF _ pe, of "requested - totalSpace"] show ?thesis
      by (simp add: realloc_grow_small)
  next
    case split
    then have gt: "totalSpace < requested" by simp
    show ?thesis
    proof (cases "spans_of (requested - totalSpace)")
      case None
      with split "1.prems"(2) show ?thesis by (simp add: realloc_grow_undefined)
    next
      case (Some spans)
      with split "1.prems"(2) have "realloc_spans spans memory totalSpace
          (totalSpace + (requested - totalSpace) div spans) (enter totalSpace requested a) =
          Inr (memory', a')"
        by (simp add: realloc_grow_split)
      with "1.IH" [OF gt _ Some pe] split show ?thesis by simp
    qed
  qed
next
  case (2 memory totalSpace requested a)
  then show ?case by simp
next
  case (3 n memory totalSpace requested a)
  from "3.prems"(2) obtain m1 a1 where
    one: "reallocMemory memory totalSpace requested a = Inr (m1, a1)"
    and more: "realloc_spans n m1 totalSpace requested a1 = Inr (memory', a')"
    by (auto split: sum.splits)
  from "3.IH"(1) [OF "3.prems"(1) one] have "P m1 a1" .
  with "3.IH"(2) [OF one _ _ more] show ?case by simp
qed

lemma realloc_calls_preserves:
  assumes step: "\<And>m a t r m' a'. P m a \<Longrightarrow> reallocMemory m t r a = Inr (m', a') \<Longrightarrow> P m' a'"
  shows "P memory a \<Longrightarrow> realloc_calls cs memory a = Inr (memory', a') \<Longrightarrow> P memory' a'"
proof (induction cs arbitrary: memory a)
  case Nil
  then show ?case by simp
next
  case (Cons c cs)
  obtain t r where c: "c = (t, r)" by (cases c)
  from Cons.prems(2) obtain m1 a1 where
    one: "reallocMemory memory t r a = Inr (m1, a1)"
    and more: "realloc_calls cs m1 a1 = Inr (memory', a')"
    by (auto simp: c split: sum.splits)
  from step [OF Cons.prems(1) one] have "P m1 a1" .
  then show ?case using more by (rule Cons.IH)
qed

lemma dealloc_walk_tidy:
  "list_all tidy bs \<Longrightarrow> list_all tidy (fst (dealloc_walk delta bs a))"
proof (induction bs arbitrary: delta a)
  case Nil
  show ?case by simp
next
  case (Cons b bs)
  then show ?case
    by (cases "mem b") (auto simp: tidy_def case_prod_beta)
qed

lemma dealloc_tidy:
  "list_all tidy (regions memory) \<Longrightarrow> list_all tidy (regions (fst (dealloc delta memory a)))"
  using dealloc_walk_tidy [of "rest memory"]
  by (cases "mem (head memory)") (auto simp: dealloc_def regions_def tidy_def case_prod_beta)

lemma alloc_block_tidy:
  "0 < delta \<Longrightarrow> list_all tidy (regions memory) \<Longrightarrow>
   list_all tidy (regions (fst (alloc_block delta memory a)))"
  by (cases "mem (head memory)")
    (auto simp: alloc_block_def regions_def tidy_def case_prod_beta malloc_def malloc_node_def)

lemma realloc_tidy:
  "list_all tidy (regions memory) \<Longrightarrow> reallocMemory memory t r a = Inr (memory', a') \<Longrightarrow>
   list_all tidy (regions memory')"
  by (rule realloc_preserves(1) [where P = "\<lambda>m a. list_all tidy (regions m)"])
    (simp_all add: alloc_block_tidy dealloc_tidy)

text \<open>
  Claim C8: after the initialization of the list and after every sequence of calls
  of \<^verbatim>\<open>reallocMemory\<close> on it (all allocations succeeding), every region has a null
  handle exactly when its size is zero.
\<close>

theorem C8_handle_null_iff_size_zero:
  "(\<forall>b \<in> set (regions (fst (init_ledger a))). (mem b = None) = (sz b = 0)) \<and>
   (\<forall>cs memory' a'.
      realloc_calls cs (fst (init_ledger a)) (snd (init_ledger a)) = Inr (memory', a') \<longrightarrow>
      (\<forall>b \<in> set (regions memory'). (mem b = None) = (sz b = 0)))"
proof -
  have init: "list_all tidy (regions (fst (init_ledger a)))"
    by (simp add: init_ledger_def malloc_node_def regions_def tidy_def)
  have "list_all tidy (regions memory')"
    if "realloc_calls cs (fst (init_ledger a)) (snd (init_ledger a)) = Inr (memory', a')"
    for cs memory' a'
    using init that
    by (rule realloc_calls_preserves [where P = "\<lambda>m a. list_all tidy (regions m)", rotated])
      (rule realloc_tidy)
  with init show ?thesis by (simp add: list_all_iff tidy_def)
qed

theorem C8_witness:
  "realloc_calls [(0, 3), (3, 1)] (fst (init_ledger start)) (snd (init_ledger start)) =
     Inr (\<lparr>head = \<lparr>node = 0, sz = 1, mem = Some 4\<rparr>,
            rest = [\<lparr>node = 2, sz = 3, mem = Some 3\<rparr>]\<rparr>,
          \<lparr>brk = 5,
             log = [Malloc_node 0, Enter 0 3, Malloc 1 3, Malloc_node 2, Malloc 3 3,
                    Enter 3 1, Free 1, Malloc 4 1]\<rparr>) \<and>
   list_all (\<lambda>b. (mem b = None) = (sz b = 0))
     [\<lparr>node = 0, sz = 1, mem = Some 4\<rparr>, \<lparr>node = 2, sz = 3, mem = Some 3\<rparr>]"
  using C8_handle_null_iff_size_zero [of start]
  by (simp add: init_ledger_def start_def realloc_grow_small realloc_shrink
      alloc_block_def dealloc_def malloc_def malloc_node_def free_def enter_def)

lemma dealloc_walk_head_kept:
  "h < brk a \<Longrightarrow> Free h \<notin> set (log a) \<Longrightarrow>
   list_all (\<lambda>b. node b \<noteq> h) bs \<Longrightarrow> list_all (\<lambda>b. mem b \<noteq> Some h) bs \<Longrightarrow>
   h < brk (snd (dealloc_walk delta bs a)) \<and> Free h \<notin> set (log (snd (dealloc_walk delta bs a))) \<and>
   list_all (\<lambda>b. node b \<noteq> h) (fst (dealloc_walk delta bs a)) \<and>
   list_all (\<lambda>b. mem b \<noteq> Some h) (fst (dealloc_walk delta bs a))"
proof (induction bs arbitrary: delta a)
  case Nil
  then show ?case by simp
next
  case (Cons b bs)
  show ?case
  proof (cases "mem b")
    case None
    with Cons.prems Cons.IH [of a delta] show ?thesis
      by (simp add: case_prod_beta)
  next
    case (Some p)
    with Cons.prems have "h < brk (free (node b) (free p a))"
      and "Free h \<notin> set (log (free (node b) (free p a)))"
      by (auto simp: free_def)
    with Cons.prems Cons.IH [of "free (node b) (free p a)" "delta - sz b"] Some show ?thesis
      by (auto simp: case_prod_beta malloc_def free_def)
  qed
qed

lemma dealloc_head_kept:
  assumes "head_kept h memory a"
  shows "head_kept h (fst (dealloc delta memory a)) (snd (dealloc delta memory a))"
proof (cases "mem (head memory)")
  case None
  with assms dealloc_walk_head_kept [of h a "rest memory" delta] show ?thesis
    by (simp add: head_kept_def dealloc_def regions_def case_prod_beta)
next
  case (Some p)
  with assms have "h < brk (free p a)" and "Free h \<notin> set (log (free p a))"
    by (auto simp: head_kept_def free_def regions_def)
  with assms Some dealloc_walk_head_kept [of h "free p a" "rest memory" "delta - sz (head memory)"]
  show ?thesis
    by (auto simp: head_kept_def dealloc_def regions_def case_prod_beta malloc_def free_def)
qed

lemma alloc_block_head_kept:
  assumes "head_kept h memory a"
  shows "head_kept h (fst (alloc_block delta memory a)) (snd (alloc_block delta memory a))"
  using assms
  by (cases "mem (head memory)")
    (auto simp: head_kept_def alloc_block_def regions_def case_prod_beta malloc_def malloc_node_def)

lemma enter_head_kept: "head_kept h memory a \<Longrightarrow> head_kept h memory (enter t r a)"
  by (simp add: head_kept_def enter_def)

lemma realloc_head_kept:
  "head_kept h memory a \<Longrightarrow> reallocMemory memory t r a = Inr (memory', a') \<Longrightarrow>
   head_kept h memory' a'"
  by (rule realloc_preserves(1) [where P = "head_kept h"])
    (simp_all add: alloc_block_head_kept dealloc_head_kept enter_head_kept)

text \<open>
  Claim C7: along every sequence of calls of \<^verbatim>\<open>reallocMemory\<close> on the list of
  \<^verbatim>\<open>printGraph\<close> the head node stays the first node of the list and its storage is
  never handed to \<^verbatim>\<open>free\<close>; a shrink that consumes the head whole only clears its
  handle and its size.
\<close>

theorem C7_head_persists:
  assumes "Free (brk a) \<notin> set (log a)"
    and "realloc_calls cs (fst (init_ledger a)) (snd (init_ledger a)) = Inr (memory', a')"
  shows "node (head memory') = node (head (fst (init_ledger a))) \<and>
         Free (node (head (fst (init_ledger a)))) \<notin> set (log a') \<and>
         (\<forall>t r p. mem (head memory') = Some p \<and> r < t \<and> sz (head memory') \<le> t - r \<longrightarrow>
            (\<exists>m2 a2. reallocMemory memory' t r a' = Inr (m2, a2) \<and>
               head m2 = (head memory')\<lparr>mem := None, sz := 0\<rparr>))"
proof -
  from assms(1) have "head_kept (brk a) (fst (init_ledger a)) (snd (init_ledger a))"
    by (simp add: head_kept_def init_ledger_def malloc_node_def regions_def)
  then have "head_kept (brk a) memory' a'"
    using assms(2)
    by (rule realloc_calls_preserves [where P = "head_kept (brk a)", rotated])
      (rule realloc_head_kept)
  then have kept: "node (head memory') = node (head (fst (init_ledger a))) \<and>
      Free (node (head (fst (init_ledger a)))) \<notin> set (log a')"
    by (simp add: head_kept_def init_ledger_def malloc_node_def)
  have "\<exists>m2 a2. reallocMemory memory' t r a' = Inr (m2, a2) \<and>
      head m2 = (head memory')\<lparr>mem := None, sz := 0\<rparr>"
    if "mem (head memory') = Some p" and "r < t" and "sz (head memory') \<le> t - r" for t r p
  proof -
    from that have "head (fst (dealloc (t - r) memory' (enter t r a'))) =
        (head memory')\<lparr>mem := None, sz := 0\<rparr>"
      by (simp add: dealloc_def case_prod_beta)
    with that(2) show ?thesis by (simp add: realloc_shrink) (metis prod.collapse)
  qed
  with kept show ?thesis by blast
qed

theorem C7_witness:
  "Free (brk start) \<notin> set (log start) \<and>
   realloc_calls [(0, 3), (3, 0)] (fst (init_ledger start)) (snd (init_ledger start)) =
     Inr (\<lparr>head = \<lparr>node = 0, sz = 0, mem = None\<rparr>,
            rest = [\<lparr>node = 2, sz = 3, mem = Some 3\<rparr>]\<rparr>,
          \<lparr>brk = 4,
             log = [Malloc_node 0, Enter 0 3, Malloc 1 3, Malloc_node 2, Malloc 3 3,
                    Enter 3 0, Free 1]\<rparr>) \<and>
   node (head (fst (init_ledger start))) = 0 \<and>
   Free 0 \<notin> set [Malloc_node 0, Enter 0 3, Malloc 1 3, Malloc_node 2, Malloc 3 3,
                    Enter 3 0, Free 1]"
  using C7_head_persists [of start "[(0, 3), (3, 0)]"]
  by (simp add: init_ledger_def start_def realloc_grow_small realloc_shrink
      alloc_block_def dealloc_def malloc_def malloc_node_def free_def enter_def)

section \<open>Growing\<close>

text \<open>
  The calls a log records, the live sizes and the head along the growth branch and
  along the loop of the split branch, whose calls all take the branch without a
  split.
\<close>

lemma entries_append [simp]: "entries (xs @ ys) = entries xs @ entries ys"
  by (induction xs rule: entries.induct) simp_all

lemma alloc_block_entries [simp]:
  "entries (log (snd (alloc_block delta memory a))) = entries (log a)"
  by (cases "mem (head memory)")
    (simp_all add: alloc_block_def case_prod_beta malloc_def malloc_node_def)

lemma enter_entries [simp]: "entries (log (enter t r a)) = entries (log a) @ [(t, r)]"
  by (simp add: enter_def)

lemma alloc_block_sum:
  "live_total (fst (alloc_block delta memory a)) =
     live_total memory + (if live (head memory) then delta else 2 * delta)"
  by (cases "mem (head memory)")
    (simp_all add: alloc_block_def case_prod_beta malloc_def malloc_node_def
      live_total_def regions_def live_def)

lemma alloc_block_head_live [simp]: "live (head (fst (alloc_block delta memory a)))"
  by (cases "mem (head memory)")
    (simp_all add: alloc_block_def case_prod_beta malloc_def malloc_node_def live_def)

lemma realloc_spans_small:
  assumes "d \<le> 2 ^ 20"
  shows "\<exists>memory' a'.
      realloc_spans n memory t (t + d) a = Inr (memory', a') \<and>
      entries (log a') = entries (log a) @ replicate n (t, t + d) \<and>
      (live (head memory) \<longrightarrow> live (head memory') \<and> live_total memory' = live_total memory + n * d)"
proof (induction n arbitrary: memory a)
  case 0
  show ?case by simp
next
  case (Suc n)
  show ?case
  proof (cases "d = 0")
    case True
    with Suc [of memory "enter t t a"] show ?thesis
      by (auto simp: realloc_equal replicate_append_same)
  next
    case False
    with assms have one: "reallocMemory memory t (t + d) a =
        Inr (alloc_block d memory (enter t (t + d) a))"
      by (simp add: realloc_grow_small)
    obtain m1 a1 where ab: "alloc_block d memory (enter t (t + d) a) = (m1, a1)"
      by (cases "alloc_block d memory (enter t (t + d) a)")
    from ab have e1: "entries (log a1) = entries (log a) @ [(t, t + d)]"
      using alloc_block_entries [of d memory "enter t (t + d) a"] by simp
    from ab have l1: "live (head m1)"
      using alloc_block_head_live [of d memory "enter t (t + d) a"] by simp
    from ab have s1: "live (head memory) \<longrightarrow> live_total m1 = live_total memory + d"
      using alloc_block_sum [of d memory "enter t (t + d) a"] by simp
    from Suc [of m1 a1] one ab e1 l1 s1 show ?thesis
      by (auto simp: replicate_append_same)
  qed
qed

lemma realloc_split:
  assumes "2 ^ 20 < delta" and "spans_of delta = Some spans"
  shows "\<exists>memory' a'.
      reallocMemory memory t (t + delta) a = Inr (memory', a') \<and>
      entries (log a') = entries (log a) @ (t, t + delta) # replicate spans (t, t + delta div spans) \<and>
      (live (head memory) \<longrightarrow> live_total memory' = live_total memory + spans * (delta div spans))"
proof -
  from assms have b: "2 \<le> spans" "delta < spans * 2 ^ 20 + spans"
    using spans_of_bounds [of delta spans] by simp_all
  then have "delta < spans * (2 ^ 20 + 1)" by (simp add: algebra_simps)
  then have "delta div spans < 2 ^ 20 + 1"
    using b(1) by (simp add: div_less_iff_less_mult mult.commute)
  then have small: "delta div spans \<le> 2 ^ 20" by simp
  from assms have "reallocMemory memory t (t + delta) a =
      realloc_spans spans memory t (t + delta div spans) (enter t (t + delta) a)"
    using realloc_grow_split [of "t + delta" t spans memory a] by simp
  with realloc_spans_small [OF small, of spans memory t "enter t (t + delta) a"]
  show ?thesis by auto
qed

lemma dealloc_walk_entries [simp]:
  "entries (log (snd (dealloc_walk delta bs a))) = entries (log a)"
proof (induction bs arbitrary: delta a)
  case Nil
  show ?case by simp
next
  case (Cons b bs)
  show ?case
  proof (cases "mem b")
    case None
    with Cons [of delta a] show ?thesis by (simp add: case_prod_beta)
  next
    case (Some p)
    with Cons [of "delta - sz b" "free (node b) (free p a)"] show ?thesis
      by (simp add: case_prod_beta malloc_def free_def)
  qed
qed

lemma dealloc_entries [simp]:
  "entries (log (snd (dealloc delta memory a))) = entries (log a)"
proof (cases "mem (head memory)")
  case None
  then show ?thesis by (simp add: dealloc_def case_prod_beta)
next
  case (Some p)
  then show ?thesis
    using dealloc_walk_entries [of "delta - sz (head memory)" "rest memory" "free p a"]
    by (simp add: dealloc_def case_prod_beta malloc_def free_def)
qed

section \<open>The span count of a large growth\<close>

lemma ceil_div: "((n::nat) + 2 ^ 20 - 1) div 2 ^ 20 =
    (if n mod 2 ^ 20 = 0 then n div 2 ^ 20 else n div 2 ^ 20 + 1)"
proof -
  define q where "q = n div 2 ^ 20"
  define m where "m = n mod 2 ^ 20"
  have n: "n = 1048576 * q + m" and m: "m < 1048576"
    by (simp_all add: q_def m_def)
  have "(n + 1048576 - 1) div 1048576 = (if m = 0 then q else q + 1)"
  proof (cases "m = 0")
    case True
    have "(n + 1048576 - 1) div 1048576 = q"
      by (rule div_nat_eqI) (use n True in simp_all)
    with True show ?thesis by simp
  next
    case False
    have "(n + 1048576 - 1) div 1048576 = q + 1"
      by (rule div_nat_eqI) (use n m False in simp_all)
    with False show ?thesis by simp
  qed
  then show ?thesis by (simp add: q_def m_def)
qed

lemma bit_length_power: "bit_length (2 ^ m) = Suc m"
proof -
  have "(2::nat) ^ m < 2 ^ Suc m" by simp
  then have "bit_length (2 ^ m) \<le> Suc m" by (rule bit_length_le)
  moreover have "m < bit_length (2 ^ m)" by (rule bit_length_gt) simp
  ultimately show ?thesis by simp
qed

lemma to_float_representable:
  assumes q: "q \<le> 2 ^ 24"
  shows "to_float (q * 2 ^ j) = q * 2 ^ j"
proof (cases "bit_length (q * 2 ^ j) \<le> 24")
  case True
  then show ?thesis by (simp add: to_float_def)
next
  case False
  define n where "n = q * 2 ^ j"
  define e where "e = bit_length n - 24"
  from False have bl: "bit_length n = e + 24" by (simp add: e_def n_def)
  have dvd: "2 ^ e dvd n"
  proof (cases "e \<le> j")
    case True
    then have "(2::nat) ^ e dvd 2 ^ j" by (rule le_imp_power_dvd)
    then show ?thesis unfolding n_def by (rule dvd_mult)
  next
    case gt: False
    have pos: "0 < n" using False by (cases "n = 0") (simp_all add: n_def bit_length.simps)
    from gt have "j + 24 \<le> bit_length n - 1" by (simp add: bl)
    then have "(2::nat) ^ (j + 24) \<le> 2 ^ (bit_length n - 1)" by (rule power_increasing) simp
    also have "\<dots> \<le> n" using pos by (rule bit_length_ge)
    finally have "2 ^ 24 * (2::nat) ^ j \<le> q * 2 ^ j" by (simp add: n_def power_add mult.commute)
    then have "2 ^ 24 \<le> q" by simp
    with q have "q = 2 ^ 24" by simp
    then have n24: "n = 2 ^ (24 + j)" by (simp add: n_def power_add)
    then have "bit_length n = Suc (24 + j)" by (simp only: bit_length_power)
    with bl have "e = Suc j" by simp
    with n24 have "n = 2 ^ 23 * 2 ^ e" by (simp add: power_add)
    then show ?thesis by simp
  qed
  then have m: "n mod 2 ^ e = 0" by simp
  from False have "to_float n = (if 2 ^ (e - 1) < n mod 2 ^ e \<or>
      (n mod 2 ^ e = 2 ^ (e - 1) \<and> odd (n div 2 ^ e)) then n div 2 ^ e + 1 else n div 2 ^ e) * 2 ^ e"
    by (simp add: to_float_def Let_def e_def n_def)
  with m dvd have "to_float n = n" by simp
  then show ?thesis by (simp add: n_def)
qed

lemma to_float_upto_16MiB: "delta \<le> 2 ^ 24 \<Longrightarrow> to_float delta = delta"
  using to_float_representable [of delta 0] by simp

lemma spans_of_ceil:
  assumes s: "spans_of delta = Some spans"
  shows "spans = (to_float delta + 2 ^ 20 - 1) div 2 ^ 20"
proof -
  define it where "it = to_float delta"
  define raw where "raw = it div 2 ^ 20"
  from s have lt: "raw < 2 ^ 32"
    and sp: "spans = (if it \<noteq> to_float raw * 2 ^ 20 then (raw + 1) mod 2 ^ 32 else raw)"
    by (simp_all add: spans_of_def Let_def it_def raw_def split: if_splits)
  have key: "(it mod 2 ^ 20 = 0 \<longrightarrow> to_float raw = raw) \<and> (it mod 2 ^ 20 \<noteq> 0 \<longrightarrow> raw < 2 ^ 24)"
  proof (cases "bit_length delta \<le> 24")
    case True
    then have "it = delta" by (simp add: it_def to_float_def)
    moreover have "delta < 2 ^ bit_length delta" by (rule bit_length_less)
    moreover have "(2::nat) ^ bit_length delta \<le> 2 ^ 24" using True by (intro power_increasing) simp_all
    ultimately have "it < 2 ^ 24" by simp
    moreover have "raw \<le> it" unfolding raw_def by simp
    ultimately have "raw < 2 ^ 24" by simp
    then show ?thesis by (simp add: to_float_small)
  next
    case False
    define e where "e = bit_length delta - 24"
    from False obtain q where tf: "it = q * 2 ^ e" and q24: "q \<le> 2 ^ 24"
      unfolding e_def it_def using to_float_parts [of delta] by (metis not_le)
    show ?thesis
    proof (cases "e < 20")
      case True
      then have "(2::nat) ^ e \<le> 2 ^ 19" by (intro power_increasing) simp_all
      with q24 have "q * 2 ^ e \<le> 2 ^ 24 * 2 ^ 19" by (rule mult_le_mono)
      then have "it < 2 ^ 24 * 2 ^ 20" by (simp add: tf)
      then have "raw < 2 ^ 24" unfolding raw_def by (simp add: div_less_iff_less_mult)
      then show ?thesis by (simp add: to_float_small)
    next
      case False
      then obtain j where j: "e = 20 + j" using le_Suc_ex [of 20 e] by auto
      then have it: "it = (q * 2 ^ j) * 2 ^ 20" by (simp add: tf power_add)
      then have "raw = q * 2 ^ j" unfolding raw_def by simp
      with q24 have "to_float raw = raw" by (simp add: to_float_representable)
      moreover from it have "it mod 2 ^ 20 = 0" by simp
      ultimately show ?thesis by simp
    qed
  qed
  have d: "it = raw * 2 ^ 20 + it mod 2 ^ 20" unfolding raw_def by simp
  have "spans = (if it mod 2 ^ 20 = 0 then raw else raw + 1)"
  proof (cases "it mod 2 ^ 20 = 0")
    case True
    with d have "it = raw * 2 ^ 20" by simp
    moreover from True key have "to_float raw = raw" by simp
    ultimately have "it = to_float raw * 2 ^ 20" by simp
    with sp True show ?thesis by simp
  next
    case False
    have "it \<noteq> to_float raw * 2 ^ 20"
    proof
      assume "it = to_float raw * 2 ^ 20"
      then have "it mod 2 ^ 20 = (to_float raw * 2 ^ 20) mod 2 ^ 20" by simp
      with False show False by simp
    qed
    moreover from False key have "raw < 2 ^ 24" by simp
    then have "(raw + 1) mod 2 ^ 32 = raw + 1" by simp
    ultimately show ?thesis using sp False by simp
  qed
  then show ?thesis using ceil_div [of it] by (simp add: raw_def it_def)
qed

lemma to_float_below:
  assumes "delta < 2 ^ 52 - 2 ^ 27"
  shows "to_float delta < 2 ^ 52"
proof -
  from assms have "delta < 2 ^ 52" by simp
  then have "bit_length delta \<le> 52" by (rule bit_length_le)
  then consider (exact) "bit_length delta \<le> 24"
    | (mid) "24 < bit_length delta" "bit_length delta \<le> 51"
    | (top) "bit_length delta = 52" by linarith
  then show ?thesis
  proof cases
    case exact
    with assms show ?thesis by (simp add: to_float_def)
  next
    case mid
    from mid(1) obtain q where tf: "to_float delta = q * 2 ^ (bit_length delta - 24)"
      and q: "q \<le> 2 ^ 24" by (rule to_float_parts)
    from q have "to_float delta \<le> 2 ^ 24 * 2 ^ (bit_length delta - 24)" by (simp add: tf)
    also have "\<dots> = 2 ^ (24 + (bit_length delta - 24))" by (simp only: power_add)
    also have "\<dots> = 2 ^ bit_length delta" using mid(1) by simp
    also have "\<dots> \<le> 2 ^ 51" using mid(2) by (intro power_increasing) simp_all
    finally show ?thesis by simp
  next
    case top
    define q where "q = delta div 2 ^ 28"
    define r where "r = delta mod 2 ^ 28"
    have tf: "to_float delta = (if 2 ^ 27 < r \<or> (r = 2 ^ 27 \<and> odd q) then q + 1 else q) * 2 ^ 28"
      by (simp add: to_float_def Let_def top q_def r_def)
    have d: "delta = 268435456 * q + r" and r: "r < 268435456"
      by (simp_all add: q_def r_def)
    from d assms have "(if 2 ^ 27 < r \<or> (r = 2 ^ 27 \<and> odd q) then q + 1 else q) \<le> 16777215"
      by (auto split: if_splits)
    then show ?thesis by (simp only: tf) simp
  qed
qed

lemma spans_of_defined: "delta < 2 ^ 52 - 2 ^ 27 \<Longrightarrow> spans_of delta \<noteq> None"
proof -
  assume "delta < 2 ^ 52 - 2 ^ 27"
  then have "to_float delta < 2 ^ 52" by (rule to_float_below)
  then have "to_float delta div 2 ^ 20 < 2 ^ 32" by (simp add: div_less_iff_less_mult)
  then show ?thesis by (simp add: spans_of_def Let_def)
qed

lemma replicate_3: "replicate 3 x = [x, x, x]"
  by (simp add: numeral_3_eq_3)

text \<open>
  Claim C6 as stated: every growth by more than 1 MiB is split into
  \<open>ceil(delta / 1 MiB)\<close> calls. The count is taken from \<^verbatim>\<open>(float)delta\<close>: 16 MiB and one
  byte is not a \<^verbatim>\<open>float\<close> and is rounded to 16 MiB, which gives 16 calls where the
  ceiling is 17. (From \<open>2^52 - 2^27\<close> bytes on there is no count at all, the conversion
  to \<^verbatim>\<open>unsigned\<close> being undefined.)
\<close>

theorem C6_counterexample:
  "spans_of 16777217 = Some 16 \<and> (16777217 + 2 ^ 20 - 1) div 2 ^ 20 = (17::nat) \<and>
   to_float 16777217 = 16777216 \<and> spans_of (2 ^ 52) = None"
  by (simp add: spans_of_def to_float_def bit_length.simps Let_def)

text \<open>
  Claim C6, amended: a growth by \<open>delta\<close> above 1 MiB (and below \<open>2^52 - 2^27\<close> bytes,
  where the conversion to \<^verbatim>\<open>unsigned\<close> is defined) is split into exactly
  \<open>ceil(F / 1 MiB)\<close> calls of \<^verbatim>\<open>reallocMemory\<close>, \<open>F\<close> being \<open>delta\<close> rounded to a
  \<^verbatim>\<open>float\<close>; each call is asked to grow by \<open>delta div spans\<close> bytes from the same
  \<^verbatim>\<open>totalSpace\<close>, and none of them is split again. \<open>F\<close> is \<open>delta\<close> itself, and the
  count \<open>ceil(delta / 1 MiB)\<close>, whenever \<open>delta\<close> is at most 16 MiB or of the form
  \<open>q * 2^j\<close> with \<open>q \<le> 2^24\<close>. For 2.5 MiB these are 3 calls of 873813 bytes each,
  2621439 bytes together, one byte short of 2.5 MiB.
\<close>

theorem C6_split_count:
  assumes "2 ^ 20 < delta" and "delta < 2 ^ 52 - 2 ^ 27"
  shows "spans_of delta = Some ((to_float delta + 2 ^ 20 - 1) div 2 ^ 20) \<and>
    (\<exists>memory' a'.
       reallocMemory memory t (t + delta) a = Inr (memory', a') \<and>
       entries (log a') =
         entries (log a) @ (t, t + delta) #
           replicate ((to_float delta + 2 ^ 20 - 1) div 2 ^ 20)
             (t, t + delta div ((to_float delta + 2 ^ 20 - 1) div 2 ^ 20))) \<and>
    (delta \<le> 2 ^ 24 \<longrightarrow> to_float delta = delta) \<and>
    (\<forall>q j. q \<le> 2 ^ 24 \<and> delta = q * 2 ^ j \<longrightarrow> to_float delta = delta)"
proof -
  from assms(2) obtain spans where s: "spans_of delta = Some spans"
    using spans_of_defined [of delta] by auto
  then have "spans = (to_float delta + 2 ^ 20 - 1) div 2 ^ 20" by (rule spans_of_ceil)
  with s have c: "spans_of delta = Some ((to_float delta + 2 ^ 20 - 1) div 2 ^ 20)" by simp
  from realloc_split [OF assms(1) c, of memory t a]
  have "\<exists>memory' a'.
       reallocMemory memory t (t + delta) a = Inr (memory', a') \<and>
       entries (log a') =
         entries (log a) @ (t, t + delta) #
           replicate ((to_float delta + 2 ^ 20 - 1) div 2 ^ 20)
             (t, t + delta div ((to_float delta + 2 ^ 20 - 1) div 2 ^ 20))"
    by blast
  with c show ?thesis by (auto simp: to_float_upto_16MiB to_float_representable)
qed

theorem C6_witness:
  "spans_of 2621440 = Some 3 \<and>
   (\<exists>memory' a'.
      reallocMemory \<lparr>head = \<lparr>node = 0, sz = 0, mem = None\<rparr>, rest = []\<rparr> 7 (7 + 2621440)
        \<lparr>brk = 1, log = []\<rparr> = Inr (memory', a') \<and>
      entries (log a') = [(7, 7 + 2621440), (7, 7 + 873813), (7, 7 + 873813), (7, 7 + 873813)]) \<and>
   3 * 873813 = (2621439::nat) \<and>
   spans_of 209715200 = Some 200 \<and> spans_of 1000000000 = Some 954 \<and>
   (1000000000 + 2 ^ 20 - 1) div 2 ^ 20 = (954::nat)"
proof -
  have f: "to_float 2621440 = 2621440" "to_float 209715200 = 209715200"
    "to_float 1000000000 = 1000000000"
    by (simp_all add: to_float_def bit_length.simps Let_def)
  from C6_split_count [of 2621440 "\<lparr>head = \<lparr>node = 0, sz = 0, mem = None\<rparr>, rest = []\<rparr>" 7
      "\<lparr>brk = 1, log = []\<rparr>"] f
  have one: "spans_of 2621440 = Some 3 \<and>
   (\<exists>memory' a'.
      reallocMemory \<lparr>head = \<lparr>node = 0, sz = 0, mem = None\<rparr>, rest = []\<rparr> 7 (7 + 2621440)
        \<lparr>brk = 1, log = []\<rparr> = Inr (memory', a') \<and>
      entries (log a') = [(7, 7 + 2621440), (7, 7 + 873813), (7, 7 + 873813), (7, 7 + 873813)])"
    by (simp add: replicate_3)
  from C6_split_count [of 209715200 "\<lparr>head = \<lparr>node = 0, sz = 0, mem = None\<rparr>, rest = []\<rparr>" 0
      "\<lparr>brk = 1, log = []\<rparr>"] f
  have two: "spans_of 209715200 = Some 200" by simp
  from C6_split_count [of 1000000000 "\<lparr>head = \<lparr>node = 0, sz = 0, mem = None\<rparr>, rest = []\<rparr>" 0
      "\<lparr>brk = 1, log = []\<rparr>"] f
  have three: "spans_of 1000000000 = Some 954" by simp
  from one two three show ?thesis by simp
qed

text \<open>
  Claim C9 as stated: \<^verbatim>\<open>reallocMemory\<close> terminates on every input, the span count
  being at least 2 whenever \<open>delta\<close> exceeds 1 MiB. With \<open>delta = 2^52\<close> the value of
  \<^verbatim>\<open>iterations\<close> is \<open>2^32\<close>, which no \<^verbatim>\<open>unsigned\<close> holds: the conversion is undefined
  and the call computes no span count. The same happens from \<open>2^52 - 2^27\<close> on, the
  first difference that \<^verbatim>\<open>(float)delta\<close> rounds up to \<open>2^52\<close>.
\<close>

theorem C9_counterexample:
  "spans_of (2 ^ 52) = None \<and>
   reallocMemory \<lparr>head = \<lparr>node = 0, sz = 0, mem = None\<rparr>, rest = []\<rparr> 0 (2 ^ 52)
     \<lparr>brk = 1, log = []\<rparr> = Inl Conversion_out_of_range \<and>
   spans_of (2 ^ 52 - 2 ^ 27) = None"
  by (simp add: spans_of_def to_float_def bit_length.simps Let_def reallocMemory.simps)

text \<open>
  Claim C9, amended: \<^verbatim>\<open>reallocMemory\<close> returns on every input that shrinks, keeps or
  grows the total by less than \<open>2^52 - 2^27\<close> bytes. A call that does not split logs
  its own entry only. A call that splits by less than \<open>2^52 - 2^27\<close> bytes has a span
  count of at least 2, so every call of its loop gets a strictly smaller
  difference (\<open>delta div spans\<close>), which is at most 1 MiB: no call of the loop splits
  again, and the calls made are the entry and \<open>spans\<close> calls below it. (The
  termination proof of the definition covers every argument; beyond the bound the
  model returns the error of the undefined conversion.)
\<close>

theorem C9_recursion_bounded:
  "(r \<le> t + 2 ^ 20 \<longrightarrow>
      (\<exists>memory' a'. reallocMemory memory t r a = Inr (memory', a') \<and>
         entries (log a') = entries (log a) @ [(t, r)])) \<and>
   (t + 2 ^ 20 < r \<and> r - t < 2 ^ 52 - 2 ^ 27 \<longrightarrow>
      (\<exists>spans. spans_of (r - t) = Some spans \<and>
         2 \<le> spans \<and> (r - t) div spans < r - t \<and> (r - t) div spans \<le> 2 ^ 20 \<and>
         (\<exists>memory' a'. reallocMemory memory t r a = Inr (memory', a') \<and>
            entries (log a') =
              entries (log a) @ (t, r) # replicate spans (t, t + (r - t) div spans))))"
proof (intro conjI impI)
  assume le: "r \<le> t + 2 ^ 20"
  consider "r = t" | "r < t" | "t < r" "r - t \<le> 2 ^ 20" using le by linarith
  then show "\<exists>memory' a'. reallocMemory memory t r a = Inr (memory', a') \<and>
      entries (log a') = entries (log a) @ [(t, r)]"
  proof cases
    case 1
    then show ?thesis by (simp add: realloc_equal)
  next
    case 2
    then show ?thesis
      by (simp add: realloc_shrink) (metis prod.collapse dealloc_entries enter_entries)
  next
    case 3
    then show ?thesis
      by (simp add: realloc_grow_small) (metis prod.collapse alloc_block_entries enter_entries)
  qed
next
  assume "t + 2 ^ 20 < r \<and> r - t < 2 ^ 52 - 2 ^ 27"
  then have gt: "t + 2 ^ 20 < r" and bound: "r - t < 2 ^ 52 - 2 ^ 27" by blast+
  from gt have d: "2 ^ 20 < r - t" and tr: "t + (r - t) = r" by simp_all
  from bound obtain spans where s: "spans_of (r - t) = Some spans"
    using spans_of_defined [of "r - t"] by auto
  with d have b: "2 \<le> spans" "r - t < spans * 2 ^ 20 + spans"
    using spans_of_bounds [of "r - t" spans] by simp_all
  then have "r - t < spans * (2 ^ 20 + 1)" by (simp add: algebra_simps)
  then have "(r - t) div spans < 2 ^ 20 + 1"
    using b(1) by (simp add: div_less_iff_less_mult mult.commute)
  then have small: "(r - t) div spans \<le> 2 ^ 20" by simp
  from b(1) d have less: "(r - t) div spans < r - t" by (intro div_less_dividend) simp_all
  from realloc_split [OF d s, of memory t a] tr
  have "\<exists>memory' a'. reallocMemory memory t r a = Inr (memory', a') \<and>
      entries (log a') = entries (log a) @ (t, r) # replicate spans (t, t + (r - t) div spans)"
    by auto
  with s b(1) small less
  show "\<exists>spans. spans_of (r - t) = Some spans \<and>
      2 \<le> spans \<and> (r - t) div spans < r - t \<and> (r - t) div spans \<le> 2 ^ 20 \<and>
      (\<exists>memory' a'. reallocMemory memory t r a = Inr (memory', a') \<and>
         entries (log a') =
           entries (log a) @ (t, r) # replicate spans (t, t + (r - t) div spans))"
    by blast
qed

theorem C9_witness:
  "spans_of (3145728 - 0) = Some 3 \<and>
   (\<exists>memory' a'.
      reallocMemory \<lparr>head = \<lparr>node = 0, sz = 0, mem = None\<rparr>, rest = []\<rparr> 0 3145728
        \<lparr>brk = 1, log = []\<rparr> = Inr (memory', a') \<and>
      entries (log a') = [(0, 3145728), (0, 1048576), (0, 1048576), (0, 1048576)])"
proof -
  have s: "spans_of (3145728 - 0) = Some 3"
    by (simp add: spans_of_def to_float_def bit_length.simps Let_def)
  from C9_recursion_bounded [of 3145728 0 "\<lparr>head = \<lparr>node = 0, sz = 0, mem = None\<rparr>, rest = []\<rparr>"
      "\<lparr>brk = 1, log = []\<rparr>"] s
  show ?thesis by (simp add: replicate_3)
qed

section \<open>The first growth of a new list\<close>

text \<open>
  Claim C2: a growth of at most 1 MiB fills the head when the head owns no memory,
  and otherwise, and only otherwise, links one new region of \<open>delta\<close> bytes behind
  the head. The source has no \<^verbatim>\<open>else\<close> after the test of \<^verbatim>\<open>memory->mem\<close>: on the new list
  of \<^verbatim>\<open>printGraph\<close> a growth by one byte fills the head and links a new region of one
  byte as well.
\<close>

theorem C2_growth_on_empty_head:
  "reallocMemory \<lparr>head = \<lparr>node = 0, sz = 0, mem = None\<rparr>, rest = []\<rparr> 0 1 \<lparr>brk = 1, log = []\<rparr> =
     Inr (\<lparr>head = \<lparr>node = 0, sz = 1, mem = Some 1\<rparr>,
            rest = [\<lparr>node = 2, sz = 1, mem = Some 3\<rparr>]\<rparr>,
          \<lparr>brk = 4, log = [Enter 0 1, Malloc 1 1, Malloc_node 2, Malloc 3 1]\<rparr>)"
  by (simp add: realloc_grow_small alloc_block_def malloc_def malloc_node_def enter_def)

text \<open>
  Claim C4: growing a new list from 0 to \<open>N\<close> and shrinking it back to 0 leaves a total
  of 0 and no region that owns memory. With \<open>N = 1\<close> the growth allocates two bytes in
  two regions, the shrink by one byte releases the memory of the head only, and
  the region behind the head still owns its byte.
\<close>

theorem C4_round_trip_leaks:
  "plot [1, 0] start =
     Inr (\<lparr>head = \<lparr>node = 0, sz = 0, mem = None\<rparr>,
            rest = [\<lparr>node = 2, sz = 1, mem = Some 3\<rparr>]\<rparr>,
          \<lparr>brk = 4,
             log = [Malloc_node 0, Enter 0 1, Malloc 1 1, Malloc_node 2, Malloc 3 1,
                    Enter 1 0, Free 1]\<rparr>)
   \<and> total_after (plot [1, 0] start) = Some 1"
  by (simp add: total_after_def live_total_def live_sum_def regions_def live_def
      plot_def init_ledger_def start_def realloc_grow_small realloc_shrink
      alloc_block_def dealloc_def malloc_def malloc_node_def free_def enter_def)

section \<open>Teardown\<close>

text \<open>
  Claim C3: teardown releases the memory of every region behind the head, then the
  memory of the head if it owns any, then the head node, and never touches the head
  node after its release. The loop of \<^verbatim>\<open>destroyMemory\<close> stops when \<^verbatim>\<open>memory\<close> is \<^verbatim>\<open>NULL\<close>,
  which is one node early, and it starts at the head. On the list one growth by one
  byte leaves (head node 0 owning 1, node 2 owning 3) the whole program frees the
  memory of the head and the head node, never frees node 2 or its memory 3, and
  then hands the head node to \<^verbatim>\<open>free\<close> a second time.
\<close>

theorem C3_teardown_log:
  "printGraph [1] start =
     Inr \<lparr>brk = 4,
          log = [Malloc_node 0, Enter 0 1, Malloc 1 1, Malloc_node 2, Malloc 3 1,
                 Free 1, Free 0, Free 0]\<rparr>"
  by (simp add: printGraph_def destroyMemory_def plot_def init_ledger_def start_def
      realloc_grow_small alloc_block_def malloc_def malloc_node_def free_def enter_def)

section \<open>The sum of the live sizes\<close>

lemma realloc_spans_3:
  "realloc_spans 3 memory t r a =
     (case reallocMemory memory t r a of
        Inl e \<Rightarrow> Inl e
      | Inr (m1, a1) \<Rightarrow>
          (case reallocMemory m1 t r a1 of
             Inl e \<Rightarrow> Inl e
           | Inr (m2, a2) \<Rightarrow>
               (case reallocMemory m2 t r a2 of Inl e \<Rightarrow> Inl e | Inr (m3, a3) \<Rightarrow> Inr (m3, a3))))"
  by (simp add: numeral_3_eq_3 split: sum.splits)

lemma spans_of_2_5: "spans_of 2621440 = Some 3"
  by (simp add: spans_of_def to_float_def bit_length.simps Let_def)

text \<open>
  Claim C1: from a new list, after every call of a chain of calls (each taking as
  current total the size the call before requested) the live sizes sum to the size
  last requested. The first growth of a new list finds a head that owns no memory,
  and for want of an \<^verbatim>\<open>else\<close> (lines 104 to 113) allocates its difference twice:
  after the single call that asks for one byte the live sizes sum to two. After the
  single call that asks for 2.5 MiB they sum to four times 873813 bytes, the first
  of the three calls of the split allocating twice.
\<close>

theorem C1_first_growth_doubles:
  "total_after (plot [1] start) = Some 2 \<and> total_after (plot [1] start) \<noteq> Some (last [1]) \<and>
   total_after (plot [2621440] start) = Some 3495252"
  by (simp add: total_after_def live_total_def live_sum_def regions_def live_def
      plot_def init_ledger_def start_def realloc_grow_small realloc_grow_split [where spans = 3]
      spans_of_2_5 realloc_spans_3 alloc_block_def
      malloc_def malloc_node_def enter_def)

text \<open>
  What one call does to the sum of the live sizes when every growth finds a head
  that owns memory: the sum follows the size requested, up to the remainder the
  integer division of a split drops.
\<close>

lemma realloc_total:
  assumes "live_total memory = totalSpace"
    and "requested \<le> totalSpace + 2 ^ 20"
    and "totalSpace < requested \<longrightarrow> live (head memory)"
  shows "\<exists>memory' a'. reallocMemory memory totalSpace requested a = Inr (memory', a') \<and>
      live_total memory' = requested"
proof -
  consider "requested = totalSpace" | "requested < totalSpace"
    | "totalSpace < requested" "requested - totalSpace \<le> 2 ^ 20" using assms(2) by linarith
  then show ?thesis
  proof cases
    case 1
    with assms(1) show ?thesis by (simp add: realloc_equal)
  next
    case 2
    have "live_total (fst (dealloc (totalSpace - requested) memory (enter totalSpace requested a))) =
        requested"
      using assms(1) 2 by (simp add: dealloc_sum)
    with 2 show ?thesis by (simp add: realloc_shrink) (metis prod.collapse)
  next
    case 3
    with assms(3) have "live (head memory)" by simp
    then have "live_total (fst (alloc_block (requested - totalSpace) memory
        (enter totalSpace requested a))) = requested"
      using assms(1) 3 by (simp add: alloc_block_sum)
    with 3 show ?thesis by (simp add: realloc_grow_small) (metis prod.collapse)
  qed
qed

lemma realloc_total_split:
  assumes "live_total memory = totalSpace"
    and gt: "totalSpace + 2 ^ 20 < requested"
    and hl: "live (head memory)"
    and s: "spans_of (requested - totalSpace) = Some spans"
  shows "\<exists>memory' a'. reallocMemory memory totalSpace requested a = Inr (memory', a') \<and>
      live_total memory' = totalSpace + spans * ((requested - totalSpace) div spans) \<and>
      live_total memory' \<le> requested \<and> requested < live_total memory' + spans"
proof -
  let ?delta = "requested - totalSpace"
  from gt have d: "2 ^ 20 < ?delta" and tr: "totalSpace + ?delta = requested" by simp_all
  from d s have "2 \<le> spans" using spans_of_bounds [of ?delta spans] by simp
  then have pos: "0 < spans" by simp
  have low: "spans * (?delta div spans) \<le> ?delta" by simp
  have "?delta = spans * (?delta div spans) + ?delta mod spans" by simp
  moreover have "?delta mod spans < spans" using pos by simp
  ultimately have high: "?delta < spans * (?delta div spans) + spans" by linarith
  from realloc_split [OF d s, of memory totalSpace a] hl tr assms(1)
  obtain memory' a' where "reallocMemory memory totalSpace requested a = Inr (memory', a')"
    and "live_total memory' = totalSpace + spans * (?delta div spans)" by auto
  moreover have "totalSpace + spans * (?delta div spans) \<le> requested"
    using low gt by linarith
  moreover have "requested < totalSpace + spans * (?delta div spans) + spans"
    using high gt by linarith
  ultimately show ?thesis
    by (intro exI [of _ memory'] exI [of _ a']) simp
qed

end
